theory Spec2Isabelle
  imports Complex_Main "HOL-Library.AList"
begin

section \<open>Mutation rate calculator: the model\<close>

text \<open>
  The embedding follows \<^verbatim>\<open>mut_calc/mutation.py\<close> and \<^verbatim>\<open>mut_calc/fasta.py\<close>.
  A Python \<^verbatim>\<open>str\<close> is a \<open>string\<close> (a list of characters); the characters are taken to
  be ASCII. Python's unbounded integers are \<open>int\<close>. A raised exception is the left
  summand of the result.

  The rate is the quotient of two Python integers under \<^verbatim>\<open>/\<close>, which Python computes as
  the double nearest to the exact quotient. The model keeps the exact quotient, a
  \<open>real\<close>; nothing below is a statement about rounding.
\<close>

datatype error =
  ValueError string
  | OSError

subsection \<open>\<^verbatim>\<open>compute_mutation_rate\<close>\<close>

text \<open>
  The body of the \<^verbatim>\<open>for r, t in zip(ref_seq, target_seq)\<close> loop, on the pair of counters
  \<open>(mutations, comparable)\<close>: the \<^verbatim>\<open>continue\<close> leaves both untouched, otherwise
  \<open>comparable\<close> is incremented and \<open>mutations\<close> is incremented when \<open>r \<noteq> t\<close>.
\<close>

fun count_positions :: "bool \<Rightarrow> (char \<times> char) list \<Rightarrow> int \<times> int \<Rightarrow> int \<times> int" where
  "count_positions exclude_gaps [] (mutations, comparable) = (mutations, comparable)"
| "count_positions exclude_gaps ((r, t) # ps) (mutations, comparable) =
     (if exclude_gaps \<and> (r = CHR ''-'' \<or> t = CHR ''-'')
      then count_positions exclude_gaps ps (mutations, comparable)
      else count_positions exclude_gaps ps
             (if r \<noteq> t then mutations + 1 else mutations, comparable + 1))"

definition compute_mutation_rate ::
  "string \<Rightarrow> string \<Rightarrow> bool \<Rightarrow> error + (int \<times> int \<times> real)" where
  "compute_mutation_rate ref_seq target_seq exclude_gaps =
     (if length ref_seq \<noteq> length target_seq
      then Inl (ValueError ''Aligned sequences must be of equal length'')
      else
        (case count_positions exclude_gaps (zip ref_seq target_seq) (0, 0) of
           (mutations, comparable) \<Rightarrow>
             Inr (mutations, comparable,
                  if comparable > 0 then real_of_int mutations / real_of_int comparable
                  else 0)))"

subsection \<open>\<^verbatim>\<open>read_fasta\<close>\<close>

text \<open>
  Python's \<^verbatim>\<open>str.strip()\<close>, \<^verbatim>\<open>str.upper()\<close> and \<^verbatim>\<open>str.startswith\<close> on ASCII text. The
  ASCII characters for which \<^verbatim>\<open>str.isspace\<close> holds are the codes 9 to 13, 28 to 31 and 32.
\<close>

definition is_space :: "char \<Rightarrow> bool" where
  "is_space c =
     (let n = (of_char c :: nat) in (9 \<le> n \<and> n \<le> 13) \<or> (28 \<le> n \<and> n \<le> 31) \<or> n = 32)"

definition strip :: "string \<Rightarrow> string" where
  "strip s = rev (dropWhile is_space (rev (dropWhile is_space s)))"

definition upper_char :: "char \<Rightarrow> char" where
  "upper_char c =
     (let n = (of_char c :: nat) in if 97 \<le> n \<and> n \<le> 122 then char_of (n - 32) else c)"

definition upper :: "string \<Rightarrow> string" where
  "upper s = map upper_char s"

definition startswith :: "string \<Rightarrow> string \<Rightarrow> bool" where
  "startswith s p = (take (length p) s = p)"

text \<open>
  The file is opened in text mode with the default \<^verbatim>\<open>newline=None\<close>: a carriage return,
  alone or followed by a line feed, is read as one line feed. Iterating the file then
  yields the lines, each with its line feed, and a last line without one when the text
  does not end in a line feed.
\<close>

fun universal_newlines :: "string \<Rightarrow> string" where
  "universal_newlines [] = []"
| "universal_newlines [c] = [if c = CHR 0x0D then CHR 0x0A else c]"
| "universal_newlines (c # d # cs) =
     (if c = CHR 0x0D \<and> d = CHR 0x0A then CHR 0x0A # universal_newlines cs
      else if c = CHR 0x0D then CHR 0x0A # universal_newlines (d # cs)
      else c # universal_newlines (d # cs))"

fun split_lines :: "string \<Rightarrow> string \<Rightarrow> string list" where
  "split_lines cur [] = (if cur = [] then [] else [cur])"
| "split_lines cur (c # cs) =
     (if c = CHR 0x0A then (cur @ [c]) # split_lines [] cs
      else split_lines (cur @ [c]) cs)"

definition file_lines :: "string \<Rightarrow> string list" where
  "file_lines txt = split_lines [] (universal_newlines txt)"

text \<open>
  The dictionary \<^verbatim>\<open>seqs\<close> is an association list in insertion order; an assignment
  \<^verbatim>\<open>seqs[k] = v\<close> is \<^const>\<open>AList.update\<close>, which replaces the value of a key that is
  present, in place, and appends a new key at the end, as a Python \<^verbatim>\<open>dict\<close> does. The three
  variables of the loop are the fields of the state.
\<close>

record loader_state =
  seqs :: "(string \<times> string) list"
  current_id :: string
  chunks :: "string list"

text \<open>
  \<^verbatim>\<open>if current_id: seqs[current_id] = "".join(chunks).upper()\<close>, which the loop runs at each
  header line and once more after the last line.
\<close>

definition flush :: "loader_state \<Rightarrow> (string \<times> string) list" where
  "flush s =
     (if current_id s \<noteq> [] then AList.update (current_id s) (upper (concat (chunks s))) (seqs s)
      else seqs s)"

definition step_line :: "loader_state \<Rightarrow> string \<Rightarrow> loader_state" where
  "step_line s raw =
     (let line = strip raw in
      if line = [] then s
      else if startswith line ''>''
      then \<lparr>seqs = flush s, current_id = strip (drop 1 line), chunks = []\<rparr>
      else s\<lparr>chunks := chunks s @ [line]\<rparr>)"

definition initial_state :: loader_state where
  "initial_state = \<lparr>seqs = [], current_id = [], chunks = []\<rparr>"

definition read_fasta_text :: "string \<Rightarrow> (string \<times> string) list" where
  "read_fasta_text txt = flush (foldl step_line initial_state (file_lines txt))"

text \<open>
  The file system is a map from paths to file contents; \<^verbatim>\<open>open\<close> on a path that is not
  there raises.
\<close>

definition read_fasta :: "(string \<rightharpoonup> string) \<Rightarrow> string \<Rightarrow> error + (string \<times> string) list" where
  "read_fasta fs path =
     (case fs path of
        None \<Rightarrow> Inl OSError
      | Some txt \<Rightarrow> Inr (read_fasta_text txt))"

subsection \<open>The format as the specification words it\<close>

text \<open>
  The specification describes the input as a sequence of records: a header line (the
  marker \<^verbatim>\<open>>\<close> as its first character, then the identifier, trimmed) followed by zero or
  more content lines, concatenated and uppercased; blank lines are skipped and content
  before the first header belongs to no record. \<open>spec_records\<close> lists the records of a
  list of lines in that reading, in order, independently of the loader's loop.
\<close>

definition is_header :: "string \<Rightarrow> bool" where
  "is_header raw = startswith (strip raw) ''>''"

definition content_lines :: "string list \<Rightarrow> string list" where
  "content_lines raws =
     filter (\<lambda>l. l \<noteq> []) (map strip (takeWhile (\<lambda>raw. \<not> is_header raw) raws))"

fun spec_records :: "string list \<Rightarrow> (string \<times> string) list" where
  "spec_records [] = []"
| "spec_records (raw # raws) =
     (if is_header raw
      then (strip (drop 1 (strip raw)), upper (concat (content_lines raws))) # spec_records raws
      else spec_records raws)"

subsection \<open>The loop of the calculator as two counts\<close>

text \<open>Whether the loop skips a position, and whether it counts it as a mutation.\<close>

definition skipped :: "bool \<Rightarrow> char \<times> char \<Rightarrow> bool" where
  "skipped exclude_gaps p = (exclude_gaps \<and> (fst p = CHR ''-'' \<or> snd p = CHR ''-''))"

definition mismatch :: "bool \<Rightarrow> char \<times> char \<Rightarrow> bool" where
  "mismatch exclude_gaps p = (\<not> skipped exclude_gaps p \<and> fst p \<noteq> snd p)"

subsection \<open>Committing a record\<close>

text \<open>
  What a flush does to the dictionary, as a function of the record it commits: the
  assignment under the guard \<^verbatim>\<open>if current_id\<close>.
\<close>

definition commit :: "(string \<times> string) list \<Rightarrow> string \<times> string \<Rightarrow> (string \<times> string) list" where
  "commit d rec = (if fst rec \<noteq> [] then AList.update (fst rec) (snd rec) d else d)"

section \<open>Properties of the calculator\<close>

lemma count_positions_filter:
  "count_positions eg ps (m, c) =
     (m + int (length (filter (mismatch eg) ps)),
      c + int (length (filter (\<lambda>p. \<not> skipped eg p) ps)))"
  by (induction ps arbitrary: m c) (auto simp: skipped_def mismatch_def)

lemma filter_zip_card:
  assumes "length r = length t"
  shows "length (filter P (zip r t)) = card {i. i < length r \<and> P (r ! i, t ! i)}"
proof -
  have "{i. i < length (zip r t) \<and> P (zip r t ! i)} = {i. i < length r \<and> P (r ! i, t ! i)}"
    using assms by auto
  then show ?thesis
    by (simp add: length_filter_conv_card)
qed

lemma compute_mutation_rate_counts:
  assumes "length r = length t"
  shows "compute_mutation_rate r t eg =
     Inr (int (length (filter (mismatch eg) (zip r t))),
          int (length (filter (\<lambda>p. \<not> skipped eg p) (zip r t))),
          if 0 < length (filter (\<lambda>p. \<not> skipped eg p) (zip r t))
          then real (length (filter (mismatch eg) (zip r t)))
               / real (length (filter (\<lambda>p. \<not> skipped eg p) (zip r t)))
          else 0)"
  using assms by (simp add: compute_mutation_rate_def count_positions_filter)

lemma mismatch_le_comparable:
  "length (filter (mismatch eg) ps) \<le> length (filter (\<lambda>p. \<not> skipped eg p) ps)"
  by (induction ps) (auto simp: mismatch_def)

subsection \<open>Counts without gap exclusion\<close>

text \<open>
  Claim C1. For equal-length strings \<open>r\<close> and \<open>t\<close> over the alphabet A, C, G, T, \<open>-\<close>,
  \<^verbatim>\<open>compute_mutation_rate(r, t, exclude_gaps=False)\<close> returns a mutation count equal to the
  number of indices \<open>i\<close> with \<open>r[i] \<noteq> t[i]\<close> and a comparable-position count equal to
  \<open>len(r)\<close>. (The alphabet plays no part in the proof: \<open>compute_mutation_rate_counts\<close>
  holds for all characters.)
\<close>

theorem compute_mutation_rate_all_positions:
  assumes "length r = length t"
    and "set r \<subseteq> set ''ACGT-''" and "set t \<subseteq> set ''ACGT-''"
  shows "\<exists>rate. compute_mutation_rate r t False =
           Inr (int (card {i. i < length r \<and> r ! i \<noteq> t ! i}), int (length r), rate)"
proof -
  have c: "filter (\<lambda>p. \<not> skipped False p) (zip r t) = zip r t"
    by (simp add: skipped_def)
  have "length (filter (mismatch False) (zip r t))
          = card {i. i < length r \<and> mismatch False (r ! i, t ! i)}"
    using assms(1) by (rule filter_zip_card)
  then have m: "length (filter (mismatch False) (zip r t)) = card {i. i < length r \<and> r ! i \<noteq> t ! i}"
    by (simp add: mismatch_def skipped_def)
  show ?thesis
    using assms(1) by (simp add: compute_mutation_rate_counts c m)
qed

text \<open>At \<open>r = ACGT\<close>, \<open>t = AG-T\<close>: two mismatches in four positions.\<close>

theorem compute_mutation_rate_all_positions_witness:
  "length ''ACGT'' = length ''AG-T'' \<and> set ''ACGT'' \<subseteq> set ''ACGT-'' \<and> set ''AG-T'' \<subseteq> set ''ACGT-''
   \<and> compute_mutation_rate ''ACGT'' ''AG-T'' False = Inr (2, 4, 1 / 2)
   \<and> int (card {i. i < length ''ACGT'' \<and> ''ACGT'' ! i \<noteq> ''AG-T'' ! i}) = 2"
proof -
  have h1: "length ''ACGT'' = length ''AG-T''" by simp
  have h2: "set ''ACGT'' \<subseteq> set ''ACGT-''" by simp
  have h3: "set ''AG-T'' \<subseteq> set ''ACGT-''" by simp
  have v: "compute_mutation_rate ''ACGT'' ''AG-T'' False = Inr (2, 4, 1 / 2)"
    by (simp add: compute_mutation_rate_def)
  from compute_mutation_rate_all_positions [OF h1 h2 h3] v
  have "int (card {i. i < length ''ACGT'' \<and> ''ACGT'' ! i \<noteq> ''AG-T'' ! i}) = 2"
    by auto
  with h1 h2 h3 v show ?thesis by blast
qed

subsection \<open>Counts with gap exclusion\<close>

text \<open>
  Claim C2. For equal-length strings \<open>r\<close> and \<open>t\<close> over the alphabet A, C, G, T, \<open>-\<close>,
  \<^verbatim>\<open>compute_mutation_rate(r, t, exclude_gaps=True)\<close> returns a comparable-position count
  equal to the number of indices where neither string has the gap character, and a
  mutation count equal to the number of those indices where the two characters differ.
\<close>

theorem compute_mutation_rate_exclude_gaps:
  assumes "length r = length t"
    and "set r \<subseteq> set ''ACGT-''" and "set t \<subseteq> set ''ACGT-''"
  shows "\<exists>rate. compute_mutation_rate r t True =
           Inr (int (card {i. i < length r \<and> r ! i \<noteq> CHR ''-'' \<and> t ! i \<noteq> CHR ''-'' \<and> r ! i \<noteq> t ! i}),
                int (card {i. i < length r \<and> r ! i \<noteq> CHR ''-'' \<and> t ! i \<noteq> CHR ''-''}),
                rate)"
proof -
  have "length (filter (\<lambda>p. \<not> skipped True p) (zip r t))
          = card {i. i < length r \<and> \<not> skipped True (r ! i, t ! i)}"
    using assms(1) by (rule filter_zip_card)
  then have c: "length (filter (\<lambda>p. \<not> skipped True p) (zip r t))
          = card {i. i < length r \<and> r ! i \<noteq> CHR ''-'' \<and> t ! i \<noteq> CHR ''-''}"
    by (simp add: skipped_def)
  have "length (filter (mismatch True) (zip r t))
          = card {i. i < length r \<and> mismatch True (r ! i, t ! i)}"
    using assms(1) by (rule filter_zip_card)
  then have m: "length (filter (mismatch True) (zip r t))
          = card {i. i < length r \<and> r ! i \<noteq> CHR ''-'' \<and> t ! i \<noteq> CHR ''-'' \<and> r ! i \<noteq> t ! i}"
    by (simp add: mismatch_def skipped_def conj_assoc)
  show ?thesis
    using assms(1) by (simp add: compute_mutation_rate_counts c m)
qed

text \<open>At \<open>r = AC-TA\<close>, \<open>t = AG-T-\<close>: one mismatch in three comparable positions.\<close>

theorem compute_mutation_rate_exclude_gaps_witness:
  "length ''AC-TA'' = length ''AG-T-'' \<and> set ''AC-TA'' \<subseteq> set ''ACGT-'' \<and> set ''AG-T-'' \<subseteq> set ''ACGT-''
   \<and> compute_mutation_rate ''AC-TA'' ''AG-T-'' True = Inr (1, 3, 1 / 3)
   \<and> int (card {i. i < length ''AC-TA'' \<and> ''AC-TA'' ! i \<noteq> CHR ''-'' \<and> ''AG-T-'' ! i \<noteq> CHR ''-''
                  \<and> ''AC-TA'' ! i \<noteq> ''AG-T-'' ! i}) = 1
   \<and> int (card {i. i < length ''AC-TA'' \<and> ''AC-TA'' ! i \<noteq> CHR ''-'' \<and> ''AG-T-'' ! i \<noteq> CHR ''-''}) = 3"
proof -
  have h1: "length ''AC-TA'' = length ''AG-T-''" by simp
  have h2: "set ''AC-TA'' \<subseteq> set ''ACGT-''" by simp
  have h3: "set ''AG-T-'' \<subseteq> set ''ACGT-''" by simp
  have v: "compute_mutation_rate ''AC-TA'' ''AG-T-'' True = Inr (1, 3, 1 / 3)"
    by (simp add: compute_mutation_rate_def)
  from compute_mutation_rate_exclude_gaps [OF h1 h2 h3] v
  have "int (card {i. i < length ''AC-TA'' \<and> ''AC-TA'' ! i \<noteq> CHR ''-'' \<and> ''AG-T-'' ! i \<noteq> CHR ''-''
                  \<and> ''AC-TA'' ! i \<noteq> ''AG-T-'' ! i}) = 1
   \<and> int (card {i. i < length ''AC-TA'' \<and> ''AC-TA'' ! i \<noteq> CHR ''-'' \<and> ''AG-T-'' ! i \<noteq> CHR ''-''}) = 3"
    by auto
  with h1 h2 h3 v show ?thesis by blast
qed

subsection \<open>The rate\<close>

text \<open>
  Claim C3. For equal-length strings and either flag value, the rate returned by
  \<^verbatim>\<open>compute_mutation_rate\<close> is the returned mutation count divided by the returned
  comparable-position count, as a quotient of reals (not truncated), when that count is
  positive, and is 0 when it is 0: \<open>r = t = ---\<close> with gap exclusion yields \<open>(0, 0, 0)\<close>,
  and one mismatch in four positions yields a quarter.
\<close>

theorem compute_mutation_rate_rate:
  assumes "length r = length t"
  shows "(\<exists>m c. compute_mutation_rate r t eg =
            Inr (m, c, if 0 < c then real_of_int m / real_of_int c else 0))
         \<and> compute_mutation_rate ''---'' ''---'' True = Inr (0, 0, 0)
         \<and> compute_mutation_rate ''ACGT'' ''AGGT'' False = Inr (1, 4, 1 / 4)"
proof -
  obtain m c where "count_positions eg (zip r t) (0, 0) = (m, c)"
    by (cases "count_positions eg (zip r t) (0, 0)")
  with assms have "compute_mutation_rate r t eg =
      Inr (m, c, if 0 < c then real_of_int m / real_of_int c else 0)"
    by (simp add: compute_mutation_rate_def)
  then have "\<exists>m c. compute_mutation_rate r t eg =
            Inr (m, c, if 0 < c then real_of_int m / real_of_int c else 0)"
    by blast
  moreover have "compute_mutation_rate ''---'' ''---'' True = Inr (0, 0, 0)"
    by (simp add: compute_mutation_rate_def)
  moreover have "compute_mutation_rate ''ACGT'' ''AGGT'' False = Inr (1, 4, 1 / 4)"
    by (simp add: compute_mutation_rate_def)
  ultimately show ?thesis by blast
qed

text \<open>At \<open>r = AC-T\<close>, \<open>t = AG-T\<close> with gap exclusion: one mismatch in three positions, a third.\<close>

theorem compute_mutation_rate_rate_witness:
  "length ''AC-T'' = length ''AG-T''
   \<and> compute_mutation_rate ''AC-T'' ''AG-T'' True = Inr (1, 3, 1 / 3)
   \<and> (\<exists>m c. compute_mutation_rate ''AC-T'' ''AG-T'' True =
            Inr (m, c, if 0 < c then real_of_int m / real_of_int c else 0))"
proof -
  have h: "length ''AC-T'' = length ''AG-T''" by simp
  have v: "compute_mutation_rate ''AC-T'' ''AG-T'' True = Inr (1, 3, 1 / 3)"
    by (simp add: compute_mutation_rate_def)
  from compute_mutation_rate_rate [OF h, of True] h v show ?thesis by blast
qed

subsection \<open>Strings of different lengths\<close>

text \<open>
  Claim C4 says that for strings of different lengths the call fails with an error whose
  message is \<^verbatim>\<open>sequences must be of equal length\<close>. The \<^verbatim>\<open>ValueError\<close> the source raises
  carries another text, so the error value is not the one the claim names: here at
  \<open>r = A\<close> and the empty \<open>t\<close>.
\<close>

theorem compute_mutation_rate_length_mismatch_message:
  "compute_mutation_rate ''A'' '''' False \<noteq> Inl (ValueError ''sequences must be of equal length'')"
  by (simp add: compute_mutation_rate_def)

text \<open>
  Claim C4, amended. For strings \<open>r\<close> and \<open>t\<close> with \<open>len(r) \<noteq> len(t)\<close> and either flag
  value, \<^verbatim>\<open>compute_mutation_rate\<close> fails with a \<^verbatim>\<open>ValueError\<close> carrying the message
  \<^verbatim>\<open>Aligned sequences must be of equal length\<close>. The result is the error and no triple,
  and it is the same whatever the two strings contain: the length test is the first
  statement, before the counters exist.
\<close>

theorem compute_mutation_rate_length_mismatch:
  assumes "length r \<noteq> length t"
  shows "compute_mutation_rate r t eg = Inl (ValueError ''Aligned sequences must be of equal length'')"
  using assms by (simp add: compute_mutation_rate_def)

theorem compute_mutation_rate_length_mismatch_witness:
  "length ''ACGT'' \<noteq> length ''AC''
   \<and> compute_mutation_rate ''ACGT'' ''AC'' True = Inl (ValueError ''Aligned sequences must be of equal length'')"
proof -
  have h: "length ''ACGT'' \<noteq> length ''AC''" by simp
  from compute_mutation_rate_length_mismatch [OF h, of True] h show ?thesis by blast
qed

subsection \<open>Comparing a string with itself\<close>

lemma count_gaps_self:
  "length (filter (\<lambda>p. \<not> skipped True p) (zip r r)) + count_list r (CHR ''-'') = length r"
  by (induction r) (auto simp: skipped_def)

lemma no_mismatch_self: "filter (mismatch eg) (zip r r) = []"
  by (induction r) (auto simp: mismatch_def)

text \<open>
  Claim C6. For every string \<open>r\<close> and either flag value, \<^verbatim>\<open>compute_mutation_rate(r, r, flag)\<close>
  returns 0 mutations; with gap exclusion the comparable-position count is \<open>len(r)\<close>
  minus the number of gap characters in \<open>r\<close>, and without it the count is \<open>len(r)\<close>.
\<close>

theorem compute_mutation_rate_self:
  "compute_mutation_rate r r True = Inr (0, int (length r) - int (count_list r (CHR ''-'')), 0)
   \<and> compute_mutation_rate r r False = Inr (0, int (length r), 0)"
proof -
  have "int (length (filter (\<lambda>p. \<not> skipped True p) (zip r r)))
          = int (length r) - int (count_list r (CHR ''-''))"
    using count_gaps_self [of r] by linarith
  then have "compute_mutation_rate r r True
               = Inr (0, int (length r) - int (count_list r (CHR ''-'')), 0)"
    by (simp add: compute_mutation_rate_counts no_mismatch_self)
  moreover have "filter (\<lambda>p. \<not> skipped False p) (zip r r) = zip r r"
    by (simp add: skipped_def)
  then have "compute_mutation_rate r r False = Inr (0, int (length r), 0)"
    by (simp add: compute_mutation_rate_counts no_mismatch_self)
  ultimately show ?thesis by blast
qed

subsection \<open>Bounds on the result\<close>

text \<open>
  Claim C8. For equal-length strings and either flag value, the triple returned by
  \<^verbatim>\<open>compute_mutation_rate\<close> has a mutation count that is not negative, a
  comparable-position count between 0 and \<open>len(reference)\<close>, at most as many mutations as
  comparable positions, and a rate between 0 and 1, which is 0 when no position is
  comparable.
\<close>

theorem compute_mutation_rate_bounds:
  assumes "length r = length t"
  shows "\<exists>m c rate. compute_mutation_rate r t eg = Inr (m, c, rate)
           \<and> 0 \<le> m \<and> 0 \<le> c \<and> c \<le> int (length r) \<and> m \<le> c
           \<and> 0 \<le> rate \<and> rate \<le> 1 \<and> (0 < c \<or> rate = 0)"
proof -
  let ?m = "length (filter (mismatch eg) (zip r t))"
  let ?c = "length (filter (\<lambda>p. \<not> skipped eg p) (zip r t))"
  let ?rate = "if 0 < ?c then real ?m / real ?c else 0"
  have res: "compute_mutation_rate r t eg = Inr (int ?m, int ?c, ?rate)"
    using assms by (rule compute_mutation_rate_counts)
  have mc: "?m \<le> ?c" by (rule mismatch_le_comparable)
  have "?c \<le> length (zip r t)" by (rule length_filter_le)
  then have cl: "?c \<le> length r" by simp
  have r0: "0 \<le> ?rate" by simp
  have r1: "?rate \<le> 1" using mc by (simp add: divide_le_eq_1)
  have rz: "0 < int ?c \<or> ?rate = 0" by simp
  from res mc cl r0 r1 rz show ?thesis
    by (intro exI [of _ "int ?m"] exI [of _ "int ?c"] exI [of _ ?rate]) simp
qed

theorem compute_mutation_rate_bounds_witness:
  "length ''AC-T'' = length ''AG-T''
   \<and> compute_mutation_rate ''AC-T'' ''AG-T'' True = Inr (1, 3, 1 / 3)
   \<and> (\<exists>m c rate. compute_mutation_rate ''AC-T'' ''AG-T'' True = Inr (m, c, rate)
           \<and> 0 \<le> m \<and> 0 \<le> c \<and> c \<le> int (length ''AC-T'') \<and> m \<le> c
           \<and> 0 \<le> rate \<and> rate \<le> 1 \<and> (0 < c \<or> rate = 0))"
proof -
  have h: "length ''AC-T'' = length ''AG-T''" by simp
  have v: "compute_mutation_rate ''AC-T'' ''AG-T'' True = Inr (1, 3, 1 / 3)"
    by (simp add: compute_mutation_rate_def)
  from compute_mutation_rate_bounds [OF h, of True] h v show ?thesis by blast
qed

subsection \<open>The comparison of one position\<close>

text \<open>
  Claim C9. The comparison at a position is the inequality of the two characters as they
  are, with no case normalisation and no special case other than the skip under gap
  exclusion. One more position \<open>(a, b)\<close> at the end of the two strings changes the two
  counts by what that rule says and nothing else; \<open>a\<close> against \<open>A\<close> is a mutation, and
  without gap exclusion a gap in the target against a residue in the reference is a
  mutation, while a gap against a gap is a comparable position that is not one.
\<close>

theorem compute_mutation_rate_literal_comparison:
  assumes "length r = length t"
  shows "(\<exists>m c x y. compute_mutation_rate r t eg = Inr (m, c, x)
            \<and> compute_mutation_rate (r @ [a]) (t @ [b]) eg =
                Inr (if eg \<and> (a = CHR ''-'' \<or> b = CHR ''-'') then m
                     else if a \<noteq> b then m + 1 else m,
                     if eg \<and> (a = CHR ''-'' \<or> b = CHR ''-'') then c else c + 1,
                     y))
         \<and> compute_mutation_rate ''a'' ''A'' eg = Inr (1, 1, 1)
         \<and> compute_mutation_rate ''ACgT'' ''ACGT'' eg = Inr (1, 4, 1 / 4)
         \<and> compute_mutation_rate ''A'' ''-'' False = Inr (1, 1, 1)
         \<and> compute_mutation_rate ''-'' ''-'' False = Inr (0, 1, 0)"
proof -
  let ?m = "length (filter (mismatch eg) (zip r t))"
  let ?c = "length (filter (\<lambda>p. \<not> skipped eg p) (zip r t))"
  have len: "length (r @ [a]) = length (t @ [b])"
    using assms by simp
  have z: "zip (r @ [a]) (t @ [b]) = zip r t @ [(a, b)]"
    using assms by simp
  have "\<exists>x. compute_mutation_rate r t eg = Inr (int ?m, int ?c, x)"
    using assms by (simp add: compute_mutation_rate_counts)
  moreover have "\<exists>y. compute_mutation_rate (r @ [a]) (t @ [b]) eg =
      Inr (if eg \<and> (a = CHR ''-'' \<or> b = CHR ''-'') then int ?m
           else if a \<noteq> b then int ?m + 1 else int ?m,
           if eg \<and> (a = CHR ''-'' \<or> b = CHR ''-'') then int ?c else int ?c + 1,
           y)"
    unfolding compute_mutation_rate_counts [OF len] z
    by (simp add: mismatch_def skipped_def)
  ultimately have step: "\<exists>m c x y. compute_mutation_rate r t eg = Inr (m, c, x)
            \<and> compute_mutation_rate (r @ [a]) (t @ [b]) eg =
                Inr (if eg \<and> (a = CHR ''-'' \<or> b = CHR ''-'') then m
                     else if a \<noteq> b then m + 1 else m,
                     if eg \<and> (a = CHR ''-'' \<or> b = CHR ''-'') then c else c + 1,
                     y)"
    by blast
  have e1: "compute_mutation_rate ''a'' ''A'' eg = Inr (1, 1, 1)"
    by (simp add: compute_mutation_rate_def)
  have e2: "compute_mutation_rate ''ACgT'' ''ACGT'' eg = Inr (1, 4, 1 / 4)"
    by (simp add: compute_mutation_rate_def)
  have e3: "compute_mutation_rate ''A'' ''-'' False = Inr (1, 1, 1)"
    by (simp add: compute_mutation_rate_def)
  have e4: "compute_mutation_rate ''-'' ''-'' False = Inr (0, 1, 0)"
    by (simp add: compute_mutation_rate_def)
  from step e1 e2 e3 e4 show ?thesis by blast
qed

theorem compute_mutation_rate_literal_comparison_witness:
  "length ''AC'' = length ''AC''
   \<and> compute_mutation_rate ''AC'' ''AC'' False = Inr (0, 2, 0)
   \<and> compute_mutation_rate (''AC'' @ ''g'') (''AC'' @ ''G'') False = Inr (1, 3, 1 / 3)"
proof -
  have h: "length ''AC'' = length ''AC''" by simp
  have v: "compute_mutation_rate ''AC'' ''AC'' False = Inr (0, 2, 0)"
    by (simp add: compute_mutation_rate_def)
  from compute_mutation_rate_literal_comparison [OF h, of False "CHR ''g''" "CHR ''G''"] v
  have "\<exists>y. compute_mutation_rate (''AC'' @ ''g'') (''AC'' @ ''G'') False = Inr (1, 3, y)"
    by auto
  then have "compute_mutation_rate (''AC'' @ ''g'') (''AC'' @ ''G'') False = Inr (1, 3, 1 / 3)"
    by (auto simp: compute_mutation_rate_def)
  with h v show ?thesis by blast
qed

section \<open>Properties of the loader\<close>

subsection \<open>The loop commits the records in order\<close>

lemma flush_commit: "flush s = commit (seqs s) (current_id s, upper (concat (chunks s)))"
  by (simp add: flush_def commit_def)

lemma not_header_blank: "strip raw = [] \<Longrightarrow> \<not> is_header raw"
  by (simp add: is_header_def startswith_def)

lemma content_lines_header: "is_header raw \<Longrightarrow> content_lines (raw # raws) = []"
  by (simp add: content_lines_def)

lemma content_lines_blank: "strip raw = [] \<Longrightarrow> content_lines (raw # raws) = content_lines raws"
  by (simp add: content_lines_def not_header_blank)

lemma content_lines_chunk:
  "strip raw \<noteq> [] \<Longrightarrow> \<not> is_header raw \<Longrightarrow>
     content_lines (raw # raws) = strip raw # content_lines raws"
  by (simp add: content_lines_def)

lemma loop_records:
  "flush (foldl step_line s raws) =
     foldl commit (seqs s)
       ((current_id s, upper (concat (chunks s @ content_lines raws))) # spec_records raws)"
proof (induction raws arbitrary: s)
  case Nil
  show ?case by (simp add: flush_commit content_lines_def)
next
  case (Cons raw raws)
  consider (blank) "strip raw = []"
    | (header) "strip raw \<noteq> []" "is_header raw"
    | (chunk) "strip raw \<noteq> []" "\<not> is_header raw"
    by blast
  then show ?case
  proof cases
    case blank
    then have "step_line s raw = s" by (simp add: step_line_def)
    with blank Cons.IH [of s] show ?thesis
      by (simp add: content_lines_blank not_header_blank)
  next
    case header
    then have st: "step_line s raw =
        \<lparr>seqs = flush s, current_id = strip (drop 1 (strip raw)), chunks = []\<rparr>"
      by (simp add: step_line_def is_header_def)
    show ?thesis
      using header Cons.IH [of "step_line s raw"]
      by (simp add: st content_lines_header flush_commit)
  next
    case chunk
    then have st: "step_line s raw = s\<lparr>chunks := chunks s @ [strip raw]\<rparr>"
      by (simp add: step_line_def is_header_def)
    show ?thesis
      using chunk Cons.IH [of "step_line s raw"]
      by (simp add: st content_lines_chunk)
  qed
qed

lemma read_fasta_text_records:
  "read_fasta_text txt = foldl commit [] (spec_records (file_lines txt))"
  by (simp add: read_fasta_text_def loop_records initial_state_def commit_def)

lemma map_of_commits:
  "k \<noteq> [] \<Longrightarrow>
     map_of (foldl commit d recs) k =
       (case map_of (rev recs) k of Some c \<Rightarrow> Some c | None \<Rightarrow> map_of d k)"
proof (induction recs arbitrary: d)
  case Nil
  show ?case by simp
next
  case (Cons rec recs)
  show ?case
    using Cons.prems Cons.IH [of "commit d rec"]
    by (cases rec) (auto simp: commit_def update_conv' map_add_def split: option.splits)
qed

lemma keys_commits: "[] \<notin> fst ` set d \<Longrightarrow> [] \<notin> fst ` set (foldl commit d recs)"
proof (induction recs arbitrary: d)
  case Nil
  then show ?case by simp
next
  case (Cons rec recs)
  have "[] \<notin> fst ` set (commit d rec)"
    using Cons.prems by (simp add: commit_def dom_update)
  then show ?case using Cons.IH by simp
qed

lemma distinct_commits: "distinct (map fst d) \<Longrightarrow> distinct (map fst (foldl commit d recs))"
proof (induction recs arbitrary: d)
  case Nil
  then show ?case by simp
next
  case (Cons rec recs)
  have "distinct (map fst (commit d rec))"
    using Cons.prems by (simp add: commit_def distinct_update)
  then show ?case using Cons.IH by simp
qed

subsection \<open>Two inputs of the specification\<close>

text \<open>
  Claim C5 says that the single record \<^verbatim>\<open>>A\<close>, \<^verbatim>\<open>ACGT\<close>, \<^verbatim>\<open>AC\<close> is read as the collection that
  maps \<open>A\<close> to \<^verbatim>\<open>ACGGAC\<close>. The loader concatenates the two content lines as they are, and
  the collection it returns is another one.
\<close>

theorem read_fasta_single_record_typo:
  "read_fasta (map_of [(''in.fasta'', ''>A\<newline>ACGT\<newline>AC\<newline>'')]) ''in.fasta''
     \<noteq> Inr [(''A'', ''ACGGAC'')]"
  by (simp add: read_fasta_def read_fasta_text_def file_lines_def step_line_def flush_def
      initial_state_def strip_def is_space_def startswith_def upper_def upper_char_def)

text \<open>
  Claim C5, amended. The loader reads the single record \<^verbatim>\<open>>A\<close>, \<^verbatim>\<open>ACGT\<close>, \<^verbatim>\<open>AC\<close> as the
  collection that maps \<open>A\<close> to \<^verbatim>\<open>ACGTAC\<close>, and the input \<^verbatim>\<open>>seq1\<close>, \<^verbatim>\<open>ACGT\<close>, \<^verbatim>\<open>-A\<close>,
  \<^verbatim>\<open>>seq2\<close>, \<^verbatim>\<open>AAAA\<close> as the collection that maps \<open>seq1\<close> to \<^verbatim>\<open>ACGT-A\<close> and \<open>seq2\<close> to
  \<^verbatim>\<open>AAAA\<close>: the content lines of a record are concatenated in order, without the line
  breaks, and uppercased (the third input has lower-case content).
\<close>

theorem read_fasta_examples:
  "read_fasta (map_of [(''in.fasta'', ''>A\<newline>ACGT\<newline>AC\<newline>'')]) ''in.fasta''
     = Inr [(''A'', ''ACGTAC'')]
   \<and> read_fasta (map_of [(''in.fasta'', ''>seq1\<newline>ACGT\<newline>-A\<newline>>seq2\<newline>AAAA'')]) ''in.fasta''
     = Inr [(''seq1'', ''ACGT-A''), (''seq2'', ''AAAA'')]
   \<and> read_fasta (map_of [(''in.fasta'', ''>s\<newline>acgt\<newline>-a\<newline>'')]) ''in.fasta''
     = Inr [(''s'', ''ACGT-A'')]"
  by code_simp

subsection \<open>Records that share an identifier\<close>

text \<open>
  Claim C7 says that whenever two or more records have headers that trim to the same
  identifier, the collection maps that identifier to the content of the last of them.
  The input \<^verbatim>\<open>>\<close>, \<^verbatim>\<open>AC\<close>, \<^verbatim>\<open>>\<close>, \<^verbatim>\<open>GG\<close> has two records whose headers both trim to the empty
  identifier, and the collection read from it is empty: it maps that identifier to
  nothing.
\<close>

theorem read_fasta_duplicate_empty_identifier:
  "spec_records (file_lines ''>\<newline>AC\<newline>>\<newline>GG'') = [([], ''AC''), ([], ''GG'')]
   \<and> read_fasta (map_of [(''in.fasta'', ''>\<newline>AC\<newline>>\<newline>GG'')]) ''in.fasta'' = Inr []"
  by (simp add: read_fasta_def read_fasta_text_def file_lines_def step_line_def flush_def
      initial_state_def strip_def is_space_def startswith_def upper_def upper_char_def
      is_header_def content_lines_def)

text \<open>
  Claim C7, amended. For every input containing records whose headers trim to the same
  non-empty identifier, the collection maps that identifier to the content of the last
  such record only: if the records of the file are \<open>earlier\<close>, then \<open>(k, content)\<close>, then
  \<open>later\<close>, with \<open>k\<close> non-empty and not an identifier of \<open>later\<close>, then the collection maps
  \<open>k\<close> to \<open>content\<close>, whatever \<open>earlier\<close> holds under \<open>k\<close>, and no identifier has two entries.
\<close>

theorem read_fasta_last_record_wins:
  assumes "fs path = Some txt"
    and "spec_records (file_lines txt) = earlier @ (k, content) # later"
    and "k \<notin> fst ` set later"
    and "k \<noteq> []"
  shows "\<exists>d. read_fasta fs path = Inr d \<and> map_of d k = Some content \<and> distinct (map fst d)"
proof -
  let ?d = "read_fasta_text txt"
  have res: "read_fasta fs path = Inr ?d"
    using assms(1) by (simp add: read_fasta_def)
  have "map_of (rev later) k = None"
    using assms(3) by (simp add: map_of_eq_None_iff)
  then have "map_of (rev (earlier @ (k, content) # later)) k = Some content"
    by (simp add: map_add_def)
  then have "map_of (rev (spec_records (file_lines txt))) k = Some content"
    by (simp only: assms(2))
  then have "map_of ?d k = Some content"
    unfolding read_fasta_text_records map_of_commits [OF assms(4)] by simp
  moreover have "distinct (map fst ?d)"
    unfolding read_fasta_text_records by (rule distinct_commits) simp
  ultimately show ?thesis using res by blast
qed

text \<open>
  Two records \<open>X\<close>, the second with the header \<^verbatim>\<open>> X \<close> and two content lines, a record
  \<open>Y\<close> between them and a record \<open>Z\<close> after them.
\<close>

theorem read_fasta_last_record_wins_witness:
  "map_of [(''in.fasta'', ''>X\<newline>AAAA\<newline>>Y\<newline>CCCC\<newline>> X \<newline>GG\<newline>TT\<newline>>Z\<newline>A\<newline>'')] ''in.fasta''
     = Some ''>X\<newline>AAAA\<newline>>Y\<newline>CCCC\<newline>> X \<newline>GG\<newline>TT\<newline>>Z\<newline>A\<newline>''
   \<and> spec_records (file_lines ''>X\<newline>AAAA\<newline>>Y\<newline>CCCC\<newline>> X \<newline>GG\<newline>TT\<newline>>Z\<newline>A\<newline>'')
     = [(''X'', ''AAAA''), (''Y'', ''CCCC'')] @ (''X'', ''GGTT'') # [(''Z'', ''A'')]
   \<and> ''X'' \<notin> fst ` set [(''Z'', ''A'')]
   \<and> ''X'' \<noteq> []
   \<and> read_fasta (map_of [(''in.fasta'', ''>X\<newline>AAAA\<newline>>Y\<newline>CCCC\<newline>> X \<newline>GG\<newline>TT\<newline>>Z\<newline>A\<newline>'')]) ''in.fasta''
     = Inr [(''X'', ''GGTT''), (''Y'', ''CCCC''), (''Z'', ''A'')]
   \<and> (\<exists>d. read_fasta (map_of [(''in.fasta'', ''>X\<newline>AAAA\<newline>>Y\<newline>CCCC\<newline>> X \<newline>GG\<newline>TT\<newline>>Z\<newline>A\<newline>'')]) ''in.fasta''
            = Inr d \<and> map_of d ''X'' = Some ''GGTT'' \<and> distinct (map fst d))"
proof -
  let ?txt = "''>X\<newline>AAAA\<newline>>Y\<newline>CCCC\<newline>> X \<newline>GG\<newline>TT\<newline>>Z\<newline>A\<newline>''"
  let ?fs = "map_of [(''in.fasta'', ?txt)]"
  have h1: "?fs ''in.fasta'' = Some ?txt" by simp
  have h2: "spec_records (file_lines ?txt)
      = [(''X'', ''AAAA''), (''Y'', ''CCCC'')] @ (''X'', ''GGTT'') # [(''Z'', ''A'')]"
    by code_simp
  have h3: "''X'' \<notin> fst ` set [(''Z'', ''A'')]" by simp
  have h4: "''X'' \<noteq> []" by simp
  have v: "read_fasta ?fs ''in.fasta'' = Inr [(''X'', ''GGTT''), (''Y'', ''CCCC''), (''Z'', ''A'')]"
    by code_simp
  from read_fasta_last_record_wins
    [of ?fs "''in.fasta''" ?txt "[(''X'', ''AAAA''), (''Y'', ''CCCC'')]" "''X''" "''GGTT''"
        "[(''Z'', ''A'')]"]
    h1 h2 h3 h4 v
  show ?thesis by blast
qed

subsection \<open>Records with an empty identifier\<close>

text \<open>
  The state of the loop after any list of lines, against the records of those lines:
  the dictionary holds the records before the last one, and the last one is pending in
  \<open>current_id\<close> and \<open>chunks\<close>.
\<close>

lemma commits_nonempty:
  "foldl commit d recs =
     foldl (\<lambda>d rec. AList.update (fst rec) (snd rec) d) d (filter (\<lambda>rec. fst rec \<noteq> []) recs)"
  by (induction recs arbitrary: d) (simp_all add: commit_def)

lemma loop_state:
  "seqs (foldl step_line s raws) =
     foldl commit (seqs s)
       (butlast ((current_id s, upper (concat (chunks s @ content_lines raws))) # spec_records raws))
   \<and> (current_id (foldl step_line s raws), upper (concat (chunks (foldl step_line s raws)))) =
     last ((current_id s, upper (concat (chunks s @ content_lines raws))) # spec_records raws)"
proof (induction raws arbitrary: s)
  case Nil
  show ?case by (simp add: content_lines_def)
next
  case (Cons raw raws)
  consider (blank) "strip raw = []"
    | (header) "strip raw \<noteq> []" "is_header raw"
    | (chunk) "strip raw \<noteq> []" "\<not> is_header raw"
    by blast
  then show ?case
  proof cases
    case blank
    then have "step_line s raw = s" by (simp add: step_line_def)
    with blank Cons.IH [of s] show ?thesis
      by (simp add: content_lines_blank not_header_blank)
  next
    case header
    then have st: "step_line s raw =
        \<lparr>seqs = flush s, current_id = strip (drop 1 (strip raw)), chunks = []\<rparr>"
      by (simp add: step_line_def is_header_def)
    show ?thesis
      using header Cons.IH [of "step_line s raw"]
      by (simp add: st content_lines_header flush_commit)
  next
    case chunk
    then have st: "step_line s raw = s\<lparr>chunks := chunks s @ [strip raw]\<rparr>"
      by (simp add: step_line_def is_header_def)
    show ?thesis
      using chunk Cons.IH [of "step_line s raw"]
      by (simp add: st content_lines_chunk)
  qed
qed

lemma loop_state_initial:
  "seqs (foldl step_line initial_state raws) =
     foldl (\<lambda>d rec. AList.update (fst rec) (snd rec) d) []
       (filter (\<lambda>rec. fst rec \<noteq> []) (butlast (spec_records raws)))"
  "(current_id (foldl step_line initial_state raws),
    upper (concat (chunks (foldl step_line initial_state raws)))) =
     (if spec_records raws = [] then ([], upper (concat (content_lines raws)))
      else last (spec_records raws))"
proof -
  note ls = loop_state [of initial_state raws]
  have "seqs (foldl step_line initial_state raws) =
     foldl commit [] (butlast (([], upper (concat (content_lines raws))) # spec_records raws))"
    using ls by (simp add: initial_state_def)
  also have "\<dots> = foldl commit [] (butlast (spec_records raws))"
    by (simp add: commit_def)
  finally show "seqs (foldl step_line initial_state raws) =
     foldl (\<lambda>d rec. AList.update (fst rec) (snd rec) d) []
       (filter (\<lambda>rec. fst rec \<noteq> []) (butlast (spec_records raws)))"
    by (simp add: commits_nonempty)
  show "(current_id (foldl step_line initial_state raws),
    upper (concat (chunks (foldl step_line initial_state raws)))) =
     (if spec_records raws = [] then ([], upper (concat (content_lines raws)))
      else last (spec_records raws))"
    using ls by (simp add: initial_state_def)
qed

text \<open>
  Claim C10. Every key of the collection returned by \<^verbatim>\<open>read_fasta\<close> is a non-empty
  string, and a record whose header gives the empty identifier, such as the line \<^verbatim>\<open>>\<close>
  alone, is dropped without an error: the collection is the dictionary obtained by
  assigning, in order, the records that have a non-empty identifier, and nothing else.
  The content lines of the last record of the input are accumulated in \<open>chunks\<close> under
  its identifier, empty or not, while the dictionary holds the earlier records with a
  non-empty identifier only; the final flush then commits nothing for an empty
  identifier. After the lines \<^verbatim>\<open>>\<close>, \<^verbatim>\<open>ACGT\<close>, \<^verbatim>\<open>AC\<close> the loop holds the two content lines in
  \<open>chunks\<close> and the dictionary is empty, the collection returned is empty, a record \<open>B\<close>
  that follows such a record is read as usual, and a record \<open>A\<close> that precedes one keeps
  its own content.
\<close>

theorem read_fasta_keys_nonempty:
  assumes "fs path = Some txt"
  shows "read_fasta fs path =
           Inr (foldl (\<lambda>d rec. AList.update (fst rec) (snd rec) d) []
                  (filter (\<lambda>rec. fst rec \<noteq> []) (spec_records (file_lines txt))))
         \<and> (\<exists>d. read_fasta fs path = Inr d \<and> [] \<notin> fst ` set d)
         \<and> seqs (foldl step_line initial_state (file_lines txt)) =
             foldl (\<lambda>d rec. AList.update (fst rec) (snd rec) d) []
               (filter (\<lambda>rec. fst rec \<noteq> []) (butlast (spec_records (file_lines txt))))
         \<and> (current_id (foldl step_line initial_state (file_lines txt)),
             upper (concat (chunks (foldl step_line initial_state (file_lines txt))))) =
             (if spec_records (file_lines txt) = []
              then ([], upper (concat (content_lines (file_lines txt))))
              else last (spec_records (file_lines txt)))
         \<and> read_fasta (map_of [(''in.fasta'', ''>\<newline>ACGT\<newline>AC\<newline>'')]) ''in.fasta'' = Inr []
         \<and> foldl step_line initial_state (file_lines ''>\<newline>ACGT\<newline>AC\<newline>'')
             = \<lparr>seqs = [], current_id = [], chunks = [''ACGT'', ''AC'']\<rparr>
         \<and> read_fasta (map_of [(''in.fasta'', ''>\<newline>ACGT\<newline>>B\<newline>GG\<newline>'')]) ''in.fasta''
             = Inr [(''B'', ''GG'')]
         \<and> read_fasta (map_of [(''in.fasta'', ''>A\<newline>AC\<newline>>\<newline>GG\<newline>'')]) ''in.fasta''
             = Inr [(''A'', ''AC'')]"
proof -
  have res: "read_fasta fs path = Inr (read_fasta_text txt)"
    using assms by (simp add: read_fasta_def)
  have general: "read_fasta fs path =
           Inr (foldl (\<lambda>d rec. AList.update (fst rec) (snd rec) d) []
                  (filter (\<lambda>rec. fst rec \<noteq> []) (spec_records (file_lines txt))))"
    unfolding res read_fasta_text_records commits_nonempty ..
  have "[] \<notin> fst ` set (read_fasta_text txt)"
    unfolding read_fasta_text_records by (rule keys_commits) simp
  with res have keys: "\<exists>d. read_fasta fs path = Inr d \<and> [] \<notin> fst ` set d"
    by simp
  note state = loop_state_initial [of "file_lines txt"]
  have e1: "read_fasta (map_of [(''in.fasta'', ''>\<newline>ACGT\<newline>AC\<newline>'')]) ''in.fasta'' = Inr []"
    by (simp add: read_fasta_def read_fasta_text_def file_lines_def step_line_def flush_def
      initial_state_def strip_def is_space_def startswith_def upper_def upper_char_def)
  have e2: "foldl step_line initial_state (file_lines ''>\<newline>ACGT\<newline>AC\<newline>'')
             = \<lparr>seqs = [], current_id = [], chunks = [''ACGT'', ''AC'']\<rparr>"
    by (simp add: file_lines_def step_line_def flush_def
      initial_state_def strip_def is_space_def startswith_def)
  have e3: "read_fasta (map_of [(''in.fasta'', ''>\<newline>ACGT\<newline>>B\<newline>GG\<newline>'')]) ''in.fasta''
             = Inr [(''B'', ''GG'')]"
    by (simp add: read_fasta_def read_fasta_text_def file_lines_def step_line_def flush_def
      initial_state_def strip_def is_space_def startswith_def upper_def upper_char_def)
  have e4: "read_fasta (map_of [(''in.fasta'', ''>A\<newline>AC\<newline>>\<newline>GG\<newline>'')]) ''in.fasta''
             = Inr [(''A'', ''AC'')]"
    by (simp add: read_fasta_def read_fasta_text_def file_lines_def step_line_def flush_def
      initial_state_def strip_def is_space_def startswith_def upper_def upper_char_def)
  from general keys state e1 e2 e3 e4 show ?thesis
    by (intro conjI)
qed

text \<open>
  At the input \<^verbatim>\<open>>A\<close>, \<^verbatim>\<open>AC\<close>, \<^verbatim>\<open>>\<close>, \<^verbatim>\<open>GG\<close>: the second record has the empty identifier, its
  line \<^verbatim>\<open>GG\<close> is in \<open>chunks\<close> when the loop ends, and the collection maps \<open>A\<close> to \<^verbatim>\<open>AC\<close>
  alone.
\<close>

theorem read_fasta_keys_nonempty_witness:
  "map_of [(''in.fasta'', ''>A\<newline>AC\<newline>>\<newline>GG\<newline>'')] ''in.fasta''
     = Some ''>A\<newline>AC\<newline>>\<newline>GG\<newline>''
   \<and> spec_records (file_lines ''>A\<newline>AC\<newline>>\<newline>GG\<newline>'') = [(''A'', ''AC''), ([], ''GG'')]
   \<and> foldl step_line initial_state (file_lines ''>A\<newline>AC\<newline>>\<newline>GG\<newline>'')
       = \<lparr>seqs = [(''A'', ''AC'')], current_id = [], chunks = [''GG'']\<rparr>
   \<and> read_fasta (map_of [(''in.fasta'', ''>A\<newline>AC\<newline>>\<newline>GG\<newline>'')]) ''in.fasta''
       = Inr (foldl (\<lambda>d rec. AList.update (fst rec) (snd rec) d) []
                (filter (\<lambda>rec. fst rec \<noteq> []) [(''A'', ''AC''), ([], ''GG'')]))
   \<and> foldl (\<lambda>d rec. AList.update (fst rec) (snd rec) d) []
                (filter (\<lambda>rec. fst rec \<noteq> []) [(''A'', ''AC''), ([], ''GG'')])
       = [(''A'', ''AC'')]"
proof -
  let ?txt = "''>A\<newline>AC\<newline>>\<newline>GG\<newline>''"
  let ?fs = "map_of [(''in.fasta'', ?txt)]"
  have h: "?fs ''in.fasta'' = Some ?txt" by simp
  have recs: "spec_records (file_lines ?txt) = [(''A'', ''AC''), ([], ''GG'')]"
    by code_simp
  have st: "foldl step_line initial_state (file_lines ?txt)
       = \<lparr>seqs = [(''A'', ''AC'')], current_id = [], chunks = [''GG'']\<rparr>"
    by (simp add: file_lines_def step_line_def flush_def
      initial_state_def strip_def is_space_def startswith_def upper_def upper_char_def)
  have "read_fasta ?fs ''in.fasta''
       = Inr (foldl (\<lambda>d rec. AList.update (fst rec) (snd rec) d) []
                (filter (\<lambda>rec. fst rec \<noteq> []) (spec_records (file_lines ?txt))))"
    using read_fasta_keys_nonempty [of ?fs "''in.fasta''" ?txt] h by blast
  then have r: "read_fasta ?fs ''in.fasta''
       = Inr (foldl (\<lambda>d rec. AList.update (fst rec) (snd rec) d) []
                (filter (\<lambda>rec. fst rec \<noteq> []) [(''A'', ''AC''), ([], ''GG'')]))"
    by (simp only: recs)
  have f: "foldl (\<lambda>d rec. AList.update (fst rec) (snd rec) d) []
                (filter (\<lambda>rec. fst rec \<noteq> []) [(''A'', ''AC''), ([], ''GG'')])
       = [(''A'', ''AC'')]"
    by simp
  from h recs st r f show ?thesis by (intro conjI)
qed

end
